theory Spec2Isabelle
  imports Main "HOL-Library.Word" "HOL-Library.Multiset"
begin

section \<open>The priority queue (package pqueue)\<close>

text \<open>
  The queue holds pointers to items (\<open>[]*Item\<close>), and the same \<open>*Item\<close> is also
  reachable from the channel's id-to-item maps, so an item is an address into an explicit
  store. Priorities are compared by the queue's comparator and never computed with.
  The capacity of the backing array (doubling in \<open>Push\<close>, halving in \<open>pop\<close>) only
  decides when the array is reallocated and copied; the copy has the same elements, so the
  capacity is not part of the model. The field \<open>count\<close> is never read or written.
\<close>

type_synonym ptr = nat

record ('v, 'p) Item =
  Val :: 'v
  Priority :: 'p
  Index :: int

record 'p PriorityQueue =
  items :: "ptr list"
  comparator :: "'p \<Rightarrow> 'p \<Rightarrow> bool"

type_synonym ('v, 'p) item_store = "ptr \<Rightarrow> ('v, 'p) Item"

definition Min_cmp :: "'p::ord \<Rightarrow> 'p \<Rightarrow> bool" where
  "Min_cmp i j = (i < j)"

definition New :: "nat \<Rightarrow> ('p \<Rightarrow> 'p \<Rightarrow> bool) \<Rightarrow> 'p PriorityQueue" where
  "New capacity cmp = \<lparr>items = [], comparator = cmp\<rparr>"

definition Len :: "'p PriorityQueue \<Rightarrow> nat" where
  "Len pq = length (items pq)"

text \<open>\<open>less\<close> reads \<open>items[i]\<close> and \<open>items[j]\<close>; its callers below guard the range.\<close>

definition less_pq :: "('v, 'p) item_store \<Rightarrow> 'p PriorityQueue \<Rightarrow> nat \<Rightarrow> nat \<Rightarrow> bool" where
  "less_pq h pq i j = comparator pq (Priority (h (items pq ! i))) (Priority (h (items pq ! j)))"

text \<open>\<open>swap\<close> exchanges the two pointers in the array and writes nothing else:
  neither item's \<open>Index\<close> field is touched.\<close>

definition swap :: "nat \<Rightarrow> nat \<Rightarrow> 'p PriorityQueue \<Rightarrow> 'p PriorityQueue" where
  "swap i j pq = pq\<lparr>items := (items pq)[i := items pq ! j, j := items pq ! i]\<rparr>"

text \<open>\<open>pop\<close>: index out of range (a panic, \<open>None\<close>) on an empty array; otherwise the
  last item gets \<open>Index = -1\<close> and is cut off.\<close>

definition pop :: "('v, 'p) item_store \<Rightarrow> 'p PriorityQueue
    \<Rightarrow> (ptr \<times> ('v, 'p) item_store \<times> 'p PriorityQueue) option" where
  "pop h pq =
     (let n = length (items pq) in
      if n = 0 then None
      else let item = items pq ! (n - 1) in
        Some (item, h(item := (h item)\<lparr>Index := - 1\<rparr>), pq\<lparr>items := take (n - 1) (items pq)\<rparr>))"

text \<open>\<open>up\<close>: the parent of \<open>j\<close> is \<open>(j - 1) / 2\<close> with Go's truncating division, which
  is \<open>0\<close> for \<open>j = 0\<close>, as is the division on \<open>nat\<close>. For \<open>j \<noteq> 0\<close> the parent differs
  from \<open>j\<close> and \<open>less(j, i)\<close> reads \<open>items[j]\<close>: out of range when \<open>j\<close> is not a
  position of the array.\<close>

function up :: "('v, 'p) item_store \<Rightarrow> nat \<Rightarrow> 'p PriorityQueue \<Rightarrow> 'p PriorityQueue option" where
  "up h j pq =
     (let i = (j - 1) div 2 in
      if i = j then Some pq
      else if \<not> j < length (items pq) then None
      else if \<not> less_pq h pq j i then Some pq
      else up h i (swap i j pq))"
  by pat_completeness auto
termination
  by (relation "measure (\<lambda>(h, j, pq). j)") auto

text \<open>\<open>down\<close>: the loop on \<open>i\<close>; every position it reads is below \<open>n\<close>, and each caller
  passes an \<open>n\<close> that is at most the length of the array. The test \<open>j1 < 0\<close> guards an
  overflow of \<open>2*i + 1\<close> that no position of an array reaches.\<close>

function down_loop :: "('v, 'p) item_store \<Rightarrow> nat \<Rightarrow> nat \<Rightarrow> 'p PriorityQueue
    \<Rightarrow> nat \<times> 'p PriorityQueue" where
  "down_loop h n i pq =
     (let j1 = 2 * i + 1 in
      if j1 \<ge> n then (i, pq)
      else let j = (if j1 + 1 < n \<and> less_pq h pq (j1 + 1) j1 then j1 + 1 else j1) in
        if \<not> less_pq h pq j i then (i, pq)
        else down_loop h n j (swap i j pq))"
  by pat_completeness auto
termination
  by (relation "measure (\<lambda>(h, n, i, pq). n - i)") (auto split: if_splits)

text \<open>Both loops are unfolded by hand, one iteration at a time.\<close>

declare up.simps [simp del] down_loop.simps [simp del]

definition down :: "('v, 'p) item_store \<Rightarrow> nat \<Rightarrow> nat \<Rightarrow> 'p PriorityQueue
    \<Rightarrow> bool \<times> 'p PriorityQueue" where
  "down h i0 n pq = (let (i, pq') = down_loop h n i0 pq in (i > i0, pq'))"

definition Push :: "ptr \<Rightarrow> ('v, 'p) item_store \<Rightarrow> 'p PriorityQueue
    \<Rightarrow> (('v, 'p) item_store \<times> 'p PriorityQueue) option" where
  "Push item h pq =
     (let n = length (items pq);
          h' = h(item := (h item)\<lparr>Index := int n\<rparr>);
          pq' = pq\<lparr>items := items pq @ [item]\<rparr>
      in case up h' n pq' of None \<Rightarrow> None | Some pq'' \<Rightarrow> Some (h', pq''))"

text \<open>\<open>Pop\<close> on an empty queue panics in \<open>swap(0, -1)\<close>.\<close>

definition Pop :: "('v, 'p) item_store \<Rightarrow> 'p PriorityQueue
    \<Rightarrow> (ptr \<times> ('v, 'p) item_store \<times> 'p PriorityQueue) option" where
  "Pop h pq =
     (let n = length (items pq) in
      if n = 0 then None
      else pop h (snd (down h 0 (n - 1) (swap 0 (n - 1) pq))))"

text \<open>\<open>Remove(i)\<close> for any \<open>int\<close>: with \<open>i \<noteq> n - 1\<close> the \<open>swap\<close> panics unless
  \<open>0 \<le> i < n\<close>; with \<open>i = n - 1\<close> only \<open>pop\<close> runs, which panics for \<open>n = 0\<close>.\<close>

definition Remove :: "int \<Rightarrow> ('v, 'p) item_store \<Rightarrow> 'p PriorityQueue
    \<Rightarrow> (ptr \<times> ('v, 'p) item_store \<times> 'p PriorityQueue) option" where
  "Remove i h pq =
     (let n = int (length (items pq)) in
      if i \<noteq> n - 1 then
        (if i < 0 \<or> i \<ge> n then None
         else let (moved, pq1) = down h (nat i) (nat (n - 1)) (swap (nat i) (nat (n - 1)) pq) in
           if \<not> moved then (case up h (nat i) pq1 of None \<Rightarrow> None | Some pq2 \<Rightarrow> pop h pq2)
           else pop h pq1)
      else pop h pq)"

text \<open>\<open>Update(item)\<close> trusts \<open>item.Index\<close>. With an index below \<open>-1\<close> the loop of
  \<open>down\<close> stops at \<open>j1 < 0\<close> and \<open>up\<close> reads \<open>items[i]\<close>: a panic.\<close>

definition Update :: "ptr \<Rightarrow> ('v, 'p) item_store \<Rightarrow> 'p PriorityQueue \<Rightarrow> 'p PriorityQueue option" where
  "Update item h pq =
     (if Index (h item) = - 1 then Some pq
      else if Index (h item) < 0 then None
      else let n = length (items pq);
               i = nat (Index (h item));
               (moved, pq1) = down h i n pq
           in if \<not> moved then up h i pq1 else Some pq1)"

definition PeekAndShift :: "('p \<Rightarrow> bool) \<Rightarrow> ('v, 'p) item_store \<Rightarrow> 'p PriorityQueue
    \<Rightarrow> (ptr option \<times> ('v, 'p) item_store \<times> 'p PriorityQueue) option" where
  "PeekAndShift keep h pq =
     (if length (items pq) = 0 then Some (None, h, pq)
      else let item = items pq ! 0 in
        if keep (Priority (h item)) then Some (None, h, pq)
        else (case Remove 0 h pq of
                None \<Rightarrow> None
              | Some (_, h', pq') \<Rightarrow> Some (Some item, h', pq')))"

subsection \<open>Heap order and the push/pop harness\<close>

text \<open>The priority stored at a position of the array, the min-heap order on the first
  \<open>n\<close> positions (every position is at least its parent), and the two weakened forms
  that hold while \<open>up\<close> and \<open>down\<close> run: the order may fail only between the moving
  position and its parent (\<open>up_inv\<close>) or its children (\<open>down_inv\<close>).\<close>

definition prio_at :: "('v, 'p) item_store \<Rightarrow> 'p PriorityQueue \<Rightarrow> nat \<Rightarrow> 'p" where
  "prio_at h pq j = Priority (h (items pq ! j))"

definition heap_upto :: "('v, 'p::linorder) item_store \<Rightarrow> 'p PriorityQueue \<Rightarrow> nat \<Rightarrow> bool" where
  "heap_upto h pq n = (\<forall>c. 0 < c \<and> c < n \<longrightarrow> prio_at h pq ((c - 1) div 2) \<le> prio_at h pq c)"

definition up_inv :: "('v, 'p::linorder) item_store \<Rightarrow> 'p PriorityQueue \<Rightarrow> nat \<Rightarrow> bool" where
  "up_inv h pq j =
     ((\<forall>c. 0 < c \<and> c < length (items pq) \<and> c \<noteq> j \<longrightarrow> prio_at h pq ((c - 1) div 2) \<le> prio_at h pq c) \<and>
      (\<forall>c. 0 < c \<and> c < length (items pq) \<and> (c - 1) div 2 = j \<and> 0 < j \<longrightarrow>
           prio_at h pq ((j - 1) div 2) \<le> prio_at h pq c))"

definition down_inv :: "('v, 'p::linorder) item_store \<Rightarrow> 'p PriorityQueue \<Rightarrow> nat \<Rightarrow> nat \<Rightarrow> bool" where
  "down_inv h pq n i =
     ((\<forall>c. 0 < c \<and> c < n \<and> (c - 1) div 2 \<noteq> i \<longrightarrow> prio_at h pq ((c - 1) div 2) \<le> prio_at h pq c) \<and>
      (\<forall>c. 0 < c \<and> c < n \<and> (c - 1) div 2 = i \<and> 0 < i \<longrightarrow>
           prio_at h pq ((i - 1) div 2) \<le> prio_at h pq c))"

fun push_all :: "ptr list \<Rightarrow> ('v, 'p) item_store \<Rightarrow> 'p PriorityQueue
    \<Rightarrow> (('v, 'p) item_store \<times> 'p PriorityQueue) option" where
  "push_all [] h pq = Some (h, pq)"
| "push_all (x # xs) h pq =
     (case Push x h pq of None \<Rightarrow> None | Some (h1, pq1) \<Rightarrow> push_all xs h1 pq1)"

fun pop_n :: "nat \<Rightarrow> ('v, 'p) item_store \<Rightarrow> 'p PriorityQueue
    \<Rightarrow> (ptr list \<times> ('v, 'p) item_store \<times> 'p PriorityQueue) option" where
  "pop_n 0 h pq = Some ([], h, pq)"
| "pop_n (Suc k) h pq =
     (case Pop h pq of
        None \<Rightarrow> None
      | Some (x, h1, pq1) \<Rightarrow>
          (case pop_n k h1 pq1 of
             None \<Rightarrow> None
           | Some (xs, h2, pq2) \<Rightarrow> Some (x # xs, h2, pq2)))"

text \<open>A store of three items for concrete runs: item 0 has priority 5, item 1 priority 3,
  every other item priority 4; as allocated, with \<open>Index\<close> zero.\<close>

definition store3 :: "(unit, int) item_store" where
  "store3 = (\<lambda>p. \<lparr>Val = (), Priority = (if p = 0 then 5 else if p = 1 then 3 else 4), Index = 0\<rparr>)"

section \<open>The channel (package nsqd)\<close>

text \<open>
  Times (\<open>time.Time\<close>, read by \<open>UnixNano\<close>) and durations are nanosecond counts in
  \<open>int\<close>; \<open>time.Now()\<close> is the argument \<open>now\<close> of the operation that calls it. The
  counters are \<open>uint64\<close> and wrap. The locks are not modelled: every operation runs
  alone from start to end. Logging is left out.
\<close>

type_synonym MessageID = string

datatype error =
    ErrExiting | ErrNotInFlight | ErrNotOwner | ErrAlreadyInFlight | ErrAlreadyDeferred
  | ErrBackend

text \<open>Modelled from the spec: the \<open>Message\<close> struct is declared outside the given
  sources. These are the fields the channel reads or writes: identifier, publish timestamp,
  owning consumer and delivery time.\<close>

record Message =
  ID :: MessageID
  Timestamp :: int
  clientID :: int
  deliveryTS :: int

text \<open>Modelled from the spec: the \<open>BackendQueue\<close> interface, its durable implementation
  and \<open>newDummyBackendQueue\<close> are outside the given sources. The durable queue is a FIFO
  whose append either fails and stores nothing or stores the message, and whose depth is
  the number of stored messages; the backend of an ephemeral channel is a no-op with depth
  zero. Whether an append fails is the environment's choice, held in \<open>failing\<close>.\<close>

datatype BackendQueue =
    DiskQueue (stored: "Message list") (failing: bool)
  | DummyBackendQueue

fun backend_Depth :: "BackendQueue \<Rightarrow> int" where
  "backend_Depth (DiskQueue ms f) = int (length ms)"
| "backend_Depth DummyBackendQueue = 0"

text \<open>Modelled from the spec: \<open>writeMessageToBackend\<close> (outside the given sources) appends
  the encoded message to the backend and returns the append's error.\<close>

fun writeMessageToBackend :: "Message \<Rightarrow> BackendQueue \<Rightarrow> error option \<times> BackendQueue" where
  "writeMessageToBackend m (DiskQueue ms f) =
     (if f then (Some ErrBackend, DiskQueue ms f) else (None, DiskQueue (ms @ [m]) f))"
| "writeMessageToBackend m DummyBackendQueue = (None, DummyBackendQueue)"

text \<open>
  The channel, with the part of the Go heap it points into: the items (shared by the two
  queues and the two maps) and the messages. \<open>memoryMsgChan\<close> is \<open>None\<close> for the nil
  channel, else the buffered messages, oldest first; \<open>memQueueSize\<close> is its capacity.
  \<open>maxMsgTimeout\<close> is the option read through \<open>nsqd.getOpts()\<close> and \<open>health\<close> the
  value last given to \<open>nsqd.SetHealth\<close>. The latency estimator is the list of the
  timestamps inserted. The consumer registry, the pause flag and the delete callback are
  not used by the operations below.
\<close>

record Channel =
  requeueCount :: "64 word"
  messageCount :: "64 word"
  timeoutCount :: "64 word"
  backend :: BackendQueue
  memoryMsgChan :: "ptr list option"
  memQueueSize :: nat
  exitFlag :: int
  ephemeral :: bool
  e2eProcessingLatencyStream :: "int list option"
  deferredMessages :: "MessageID \<rightharpoonup> ptr"
  deferredPQ :: "int PriorityQueue"
  inFlightMessages :: "MessageID \<rightharpoonup> ptr"
  inFlightPQ :: "int PriorityQueue"
  itemStore :: "(ptr, int) item_store"
  itemNext :: ptr
  msgStore :: "ptr \<Rightarrow> Message"
  maxMsgTimeout :: int
  health :: "error option"

definition Exiting :: "Channel \<Rightarrow> bool" where
  "Exiting c = (exitFlag c = 1)"

definition Depth :: "Channel \<Rightarrow> int" where
  "Depth c = int (case memoryMsgChan c of None \<Rightarrow> 0 | Some q \<Rightarrow> length q) + backend_Depth (backend c)"

text \<open>\<open>put\<close>: the non-blocking send succeeds when the channel is not nil and its buffer
  has room (no receiver is waiting: no dequeue runs at the same time); otherwise the
  message goes to the backend and the result of the append becomes the health.\<close>

definition put :: "ptr \<Rightarrow> Channel \<Rightarrow> error option \<times> Channel" where
  "put m c =
     (case memoryMsgChan c of
        Some q \<Rightarrow>
          if length q < memQueueSize c then (None, c\<lparr>memoryMsgChan := Some (q @ [m])\<rparr>)
          else (let (err, b) = writeMessageToBackend (msgStore c m) (backend c)
                in (err, c\<lparr>backend := b, health := err\<rparr>))
      | None \<Rightarrow>
          (let (err, b) = writeMessageToBackend (msgStore c m) (backend c)
           in (err, c\<lparr>backend := b, health := err\<rparr>)))"

definition PutMessage :: "ptr \<Rightarrow> Channel \<Rightarrow> error option \<times> Channel" where
  "PutMessage m c =
     (if Exiting c then (Some ErrExiting, c)
      else let (err, c1) = put m c in
        if err \<noteq> None then (err, c1)
        else (None, c1\<lparr>messageCount := messageCount c1 + 1\<rparr>))"

text \<open>\<open>&pqueue.Item{Val: msg, Priority: p}\<close>: a fresh address, \<open>Index\<close> zero.\<close>

definition new_Item :: "ptr \<Rightarrow> int \<Rightarrow> Channel \<Rightarrow> ptr \<times> Channel" where
  "new_Item msg p c =
     (itemNext c,
      c\<lparr>itemStore := (itemStore c)(itemNext c := \<lparr>Val = msg, Priority = p, Index = 0\<rparr>),
        itemNext := itemNext c + 1\<rparr>)"

definition item_ID :: "Channel \<Rightarrow> ptr \<Rightarrow> MessageID" where
  "item_ID c item = ID (msgStore c (Val (itemStore c item)))"

definition pushInFlightMessage :: "ptr \<Rightarrow> Channel \<Rightarrow> error option \<times> Channel" where
  "pushInFlightMessage item c =
     (if inFlightMessages c (item_ID c item) \<noteq> None then (Some ErrAlreadyInFlight, c)
      else (None, c\<lparr>inFlightMessages := (inFlightMessages c)(item_ID c item \<mapsto> item)\<rparr>))"

definition popInFlightMessage :: "int \<Rightarrow> MessageID \<Rightarrow> bool \<Rightarrow> Channel \<Rightarrow> error + ptr \<times> Channel" where
  "popInFlightMessage cid mid peek c =
     (case inFlightMessages c mid of
        None \<Rightarrow> Inl ErrNotInFlight
      | Some item \<Rightarrow>
          if clientID (msgStore c (Val (itemStore c item))) \<noteq> cid then Inl ErrNotOwner
          else Inr (item, if \<not> peek then c\<lparr>inFlightMessages := (inFlightMessages c)(mid := None)\<rparr>
                           else c))"

definition addToInFlightPQ :: "ptr \<Rightarrow> Channel \<Rightarrow> Channel option" where
  "addToInFlightPQ item c =
     (case Push item (itemStore c) (inFlightPQ c) of
        None \<Rightarrow> None
      | Some (h, pq) \<Rightarrow> Some (c\<lparr>itemStore := h, inFlightPQ := pq\<rparr>))"

definition removeFromInFlightPQ :: "ptr \<Rightarrow> Channel \<Rightarrow> Channel option" where
  "removeFromInFlightPQ item c =
     (if Index (itemStore c item) \<noteq> - 1 then
        (case Remove (Index (itemStore c item)) (itemStore c) (inFlightPQ c) of
           None \<Rightarrow> None
         | Some (_, h, pq) \<Rightarrow> Some (c\<lparr>itemStore := h, inFlightPQ := pq\<rparr>))
      else Some c)"

definition pushDeferredMessage :: "ptr \<Rightarrow> Channel \<Rightarrow> error option \<times> Channel" where
  "pushDeferredMessage item c =
     (if deferredMessages c (item_ID c item) \<noteq> None then (Some ErrAlreadyDeferred, c)
      else (None, c\<lparr>deferredMessages := (deferredMessages c)(item_ID c item \<mapsto> item)\<rparr>))"

definition addToDeferredPQ :: "ptr \<Rightarrow> Channel \<Rightarrow> Channel option" where
  "addToDeferredPQ item c =
     (case Push item (itemStore c) (deferredPQ c) of
        None \<Rightarrow> None
      | Some (h, pq) \<Rightarrow> Some (c\<lparr>itemStore := h, deferredPQ := pq\<rparr>))"

text \<open>The operations that reach the queues return \<open>None\<close> for a panic, else the error
  (\<open>None\<close> for nil) with the channel as the call leaves it.\<close>

definition StartInFlightTimeout :: "ptr \<Rightarrow> int \<Rightarrow> int \<Rightarrow> int \<Rightarrow> Channel
    \<Rightarrow> (error option \<times> Channel) option" where
  "StartInFlightTimeout msg cid timeout now c =
     (let c1 = c\<lparr>msgStore := (msgStore c)(msg := (msgStore c msg)\<lparr>clientID := cid, deliveryTS := now\<rparr>)\<rparr>;
          (item, c2) = new_Item msg (now + timeout) c1;
          (err, c3) = pushInFlightMessage item c2
      in if err \<noteq> None then Some (err, c3)
         else (case addToInFlightPQ item c3 of None \<Rightarrow> None | Some c4 \<Rightarrow> Some (None, c4)))"

definition StartDeferredTimeout :: "ptr \<Rightarrow> int \<Rightarrow> int \<Rightarrow> Channel
    \<Rightarrow> (error option \<times> Channel) option" where
  "StartDeferredTimeout msg timeout now c =
     (let (item, c1) = new_Item msg (now + timeout) c;
          (err, c2) = pushDeferredMessage item c1
      in if err \<noteq> None then Some (err, c2)
         else (case addToDeferredPQ item c2 of None \<Rightarrow> None | Some c3 \<Rightarrow> Some (None, c3)))"

text \<open>\<open>PutMessageDeferred\<close> has no result: the error of \<open>StartDeferredTimeout\<close> is dropped.\<close>

definition PutMessageDeferred :: "ptr \<Rightarrow> int \<Rightarrow> int \<Rightarrow> Channel \<Rightarrow> Channel option" where
  "PutMessageDeferred msg timeout now c =
     (case StartDeferredTimeout msg timeout now (c\<lparr>messageCount := messageCount c + 1\<rparr>) of
        None \<Rightarrow> None
      | Some (_, c') \<Rightarrow> Some c')"

definition TouchMessage :: "int \<Rightarrow> MessageID \<Rightarrow> int \<Rightarrow> int \<Rightarrow> Channel
    \<Rightarrow> (error option \<times> Channel) option" where
  "TouchMessage cid mid clientMsgTimeout now c =
     (case popInFlightMessage cid mid True c of
        Inl err \<Rightarrow> Some (Some err, c)
      | Inr (item, c1) \<Rightarrow>
          let ts = deliveryTS (msgStore c1 (Val (itemStore c1 item)));
              newTimeout = now + clientMsgTimeout;
              newTimeout = (if newTimeout - ts \<ge> maxMsgTimeout c1 then ts + maxMsgTimeout c1
                            else newTimeout);
              h = (itemStore c1)(item := (itemStore c1 item)\<lparr>Priority := newTimeout\<rparr>)
          in (case Update item h (inFlightPQ c1) of
                None \<Rightarrow> None
              | Some pq \<Rightarrow> Some (None, c1\<lparr>itemStore := h, inFlightPQ := pq\<rparr>)))"

definition FinishMessage :: "int \<Rightarrow> MessageID \<Rightarrow> Channel \<Rightarrow> (error option \<times> Channel) option" where
  "FinishMessage cid mid c =
     (case popInFlightMessage cid mid False c of
        Inl err \<Rightarrow> Some (Some err, c)
      | Inr (item, c1) \<Rightarrow>
          (case removeFromInFlightPQ item c1 of
             None \<Rightarrow> None
           | Some c2 \<Rightarrow>
               (case e2eProcessingLatencyStream c2 of
                  None \<Rightarrow> Some (None, c2)
                | Some q \<Rightarrow>
                    Some (None, c2\<lparr>e2eProcessingLatencyStream :=
                      Some (q @ [Timestamp (msgStore c2 (Val (itemStore c2 item)))])\<rparr>))))"

definition RequeueMessage :: "int \<Rightarrow> MessageID \<Rightarrow> int \<Rightarrow> int \<Rightarrow> Channel
    \<Rightarrow> (error option \<times> Channel) option" where
  "RequeueMessage cid mid timeout now c =
     (case popInFlightMessage cid mid False c of
        Inl err \<Rightarrow> Some (Some err, c)
      | Inr (item, c1) \<Rightarrow>
          (case removeFromInFlightPQ item c1 of
             None \<Rightarrow> None
           | Some c2 \<Rightarrow>
               let c3 = c2\<lparr>requeueCount := requeueCount c2 + 1\<rparr> in
               if timeout = 0 then
                 (if Exiting c3 then Some (Some ErrExiting, c3)
                  else Some (put (Val (itemStore c3 item)) c3))
               else StartDeferredTimeout (Val (itemStore c3 item)) timeout now c3))"


text \<open>\<open>processDeferredQueue\<close>: the loop releases the head while it is due. The error of
  \<open>put\<close> is dropped.\<close>

function processDeferredQueue_loop :: "int \<Rightarrow> bool \<Rightarrow> Channel \<Rightarrow> (bool \<times> Channel) option" where
  "processDeferredQueue_loop t dirty c =
     (case PeekAndShift (\<lambda>p. p > t) (itemStore c) (deferredPQ c) of
        None \<Rightarrow> None
      | Some (None, h, pq) \<Rightarrow> Some (dirty, c\<lparr>itemStore := h, deferredPQ := pq\<rparr>)
      | Some (Some item, h, pq) \<Rightarrow>
          let c1 = c\<lparr>itemStore := h, deferredPQ := pq\<rparr>;
              c2 = c1\<lparr>deferredMessages := (deferredMessages c1)(item_ID c1 item := None)\<rparr>
          in processDeferredQueue_loop t True (snd (put (Val (itemStore c2 item)) c2)))"
  by pat_completeness auto
termination
proof (relation "measure (\<lambda>(t, dirty, c). length (items (deferredPQ c)))", goal_cases)
  case 1
  show ?case by simp
next
  case (2 t dirty c r o1 r2 item h pq c1 c2)
  have dl: "length (items (snd (down_loop h' n i q))) = length (items q)"
    for h' :: "(ptr, int) item_store" and n i q
  proof (induction h' n i q rule: down_loop.induct)
    case (1 h' n i q)
    show ?case
      using "1.IH" by (subst down_loop.simps) (simp add: Let_def swap_def)
  qed
  have ul: "up h' j q = Some q' \<Longrightarrow> length (items q') = length (items q)"
    for h' :: "(ptr, int) item_store" and j q q'
  proof (induction h' j q rule: up.induct)
    case (1 h' j q)
    show ?case
      using "1.IH" "1.prems"
      by (subst (asm) up.simps) (auto simp: Let_def swap_def split: if_splits)
  qed
  have pl: "pop h' q = Some (x, h'', q') \<Longrightarrow> length (items q') < length (items q)"
    for h' h'' :: "(ptr, int) item_store" and q x q'
    by (auto simp: pop_def Let_def split: if_splits)
  have rl: "length (items q') < length (items q)"
    if R: "Remove 0 h' q = Some (x, h'', q')"
    for h' h'' :: "(ptr, int) item_store" and q x q'
  proof -
    define q1 where "q1 = snd (down_loop h' (nat (int (length (items q)) - 1)) 0
        (swap 0 (nat (int (length (items q)) - 1)) q))"
    have l1: "length (items q1) = length (items q)" by (simp add: q1_def dl swap_def)
    consider (a) "pop h' q = Some (x, h'', q')" | (b) "pop h' q1 = Some (x, h'', q')"
      | (c) q2 where "up h' 0 q1 = Some q2" "pop h' q2 = Some (x, h'', q')"
      using R unfolding Remove_def Let_def down_def q1_def
      by (simp split: if_splits prod.splits option.splits)
    then show ?thesis
    proof cases
      case a then show ?thesis by (rule pl)
    next
      case b then show ?thesis using pl [of h' q1 x h'' q'] l1 by simp
    next
      case c then show ?thesis using pl [of h' q2 x h'' q'] ul [of h' 0 q1 q2] l1 by simp
    qed
  qed
  have "PeekAndShift ((<) t) (itemStore c) (deferredPQ c) = Some (Some item, h, pq)"
    using 2 by simp
  then have "length (items pq) < length (items (deferredPQ c))"
    using rl [of "itemStore c" "deferredPQ c" _ h pq]
    by (auto simp: PeekAndShift_def Let_def split: if_splits option.splits)
  moreover have "deferredPQ (snd (put m c')) = deferredPQ c'" for m c'
    by (auto simp: put_def Let_def split: option.splits prod.splits)
  ultimately show ?case using 2 by simp
qed

definition processDeferredQueue :: "int \<Rightarrow> Channel \<Rightarrow> (bool \<times> Channel) option" where
  "processDeferredQueue t c =
     (if Exiting c then Some (False, c) else processDeferredQueue_loop t False c)"

text \<open>\<open>NewChannel\<close>: the fields the model keeps, as the constructor sets them. The
  buffer exists when \<open>MemQueueSize > 0\<close> or the channel is ephemeral; an ephemeral channel
  gets the no-op backend, any other an empty durable queue. The address space is empty.\<close>

definition NewChannel :: "nat \<Rightarrow> bool \<Rightarrow> int \<Rightarrow> (ptr \<Rightarrow> Message) \<Rightarrow> Channel" where
  "NewChannel memSize eph maxTimeout msgs =
     \<lparr>requeueCount = 0, messageCount = 0, timeoutCount = 0,
      backend = (if eph then DummyBackendQueue else DiskQueue [] False),
      memoryMsgChan = (if memSize > 0 \<or> eph then Some [] else None),
      memQueueSize = memSize, exitFlag = 0, ephemeral = eph,
      e2eProcessingLatencyStream = None,
      deferredMessages = Map.empty,
      deferredPQ = New (max 1 (memSize div 10)) Min_cmp,
      inFlightMessages = Map.empty,
      inFlightPQ = New (max 1 (memSize div 10)) Min_cmp,
      itemStore = (\<lambda>_. \<lparr>Val = 0, Priority = 0, Index = 0\<rparr>), itemNext = 0,
      msgStore = msgs, maxMsgTimeout = maxTimeout, health = None\<rparr>"

text \<open>Messages for concrete runs: message \<open>p\<close> has the identifier \<open>m0\<close>, \<open>m1\<close> or
  \<open>m2\<close> (every address from 2 on shares \<open>m2\<close>) and has not been delivered.\<close>

definition msgs3 :: "ptr \<Rightarrow> Message" where
  "msgs3 = (\<lambda>p. \<lparr>ID = (if p = 0 then ''m0'' else if p = 1 then ''m1'' else ''m2''),
                  Timestamp = 0, clientID = 0, deliveryTS = 0\<rparr>)"

text \<open>Whether a message can be consumed from the channel: its pointer is in the buffer or
  its encoding is stored in the backend.\<close>

definition in_stream :: "Channel \<Rightarrow> ptr \<Rightarrow> bool" where
  "in_stream c m =
     (m \<in> set (case memoryMsgChan c of None \<Rightarrow> [] | Some q \<Rightarrow> q) \<or>
      msgStore c m \<in> set (case backend c of DiskQueue ms f \<Rightarrow> ms | DummyBackendQueue \<Rightarrow> []))"

text \<open>The non-blocking send of \<open>put\<close> would succeed.\<close>

definition has_room :: "Channel \<Rightarrow> bool" where
  "has_room c = (case memoryMsgChan c of None \<Rightarrow> False | Some q \<Rightarrow> length q < memQueueSize c)"

text \<open>A durable channel in which message 0 was deferred at time 0 for 500 ns.\<close>

definition chanD :: Channel where
  "chanD = snd (the (StartDeferredTimeout 0 500 0 (NewChannel 10 False 60 msgs3)))"

section \<open>Properties of the priority queue\<close>

lemma swap_length [simp]: "length (items (swap i j pq)) = length (items pq)"
  by (simp add: swap_def)

lemma swap_comparator [simp]: "comparator (swap i j pq) = comparator pq"
  by (simp add: swap_def)

lemma swap_mset [simp]:
  "i < length (items pq) \<Longrightarrow> j < length (items pq) \<Longrightarrow> mset (items (swap i j pq)) = mset (items pq)"
  by (simp add: swap_def mset_swap)

lemma prio_at_swap:
  "i < length (items pq) \<Longrightarrow> j < length (items pq) \<Longrightarrow> c < length (items pq) \<Longrightarrow>
   prio_at h (swap i j pq) c =
     (if c = j then prio_at h pq i else if c = i then prio_at h pq j else prio_at h pq c)"
  by (auto simp: prio_at_def swap_def nth_list_update)

lemma less_pq_Min:
  "comparator pq = Min_cmp \<Longrightarrow> less_pq h pq i j = (prio_at h pq i < prio_at h pq j)"
  by (simp add: less_pq_def prio_at_def Min_cmp_def)

lemma parent_lt: "0 < c \<Longrightarrow> (c - 1) div 2 < (c::nat)"
  by simp

lemma up_inv_swap:
  fixes h :: "('v, 'p::linorder) item_store"
  assumes inv: "up_inv h pq j" and j: "j < length (items pq)" and j0: "(j - 1) div 2 \<noteq> j"
    and lt: "prio_at h pq j < prio_at h pq ((j - 1) div 2)"
  shows "up_inv h (swap ((j - 1) div 2) j pq) ((j - 1) div 2)"
proof -
  define i where "i = (j - 1) div 2"
  have ij: "i < j" using j0 unfolding i_def by (cases j) auto
  have il: "i < length (items pq)" using ij j by simp
  have lt': "prio_at h pq j < prio_at h pq i" using lt by (simp add: i_def)
  have inv1: "\<And>c. 0 < c \<Longrightarrow> c < length (items pq) \<Longrightarrow> c \<noteq> j \<Longrightarrow>
      prio_at h pq ((c - 1) div 2) \<le> prio_at h pq c"
    using inv unfolding up_inv_def by blast
  have inv2: "\<And>c. 0 < c \<Longrightarrow> c < length (items pq) \<Longrightarrow> (c - 1) div 2 = j \<Longrightarrow>
      prio_at h pq i \<le> prio_at h pq c"
  proof -
    fix c :: nat assume c: "0 < c" "c < length (items pq)" "(c - 1) div 2 = j"
    have "0 < j" using ij by simp
    then show "prio_at h pq i \<le> prio_at h pq c"
      using inv c unfolding up_inv_def i_def by blast
  qed
  have sw: "\<And>c. c < length (items pq) \<Longrightarrow> prio_at h (swap i j pq) c =
     (if c = j then prio_at h pq i else if c = i then prio_at h pq j else prio_at h pq c)"
    using prio_at_swap [OF il j] by blast
  have "up_inv h (swap i j pq) i"
    unfolding up_inv_def
  proof (intro conjI allI impI)
    fix c assume c: "0 < c \<and> c < length (items (swap i j pq)) \<and> c \<noteq> i"
    then have cl: "c < length (items pq)" and c0: "0 < c" and ci: "c \<noteq> i" by simp_all
    define p where "p = (c - 1) div 2"
    have pc: "p < c" using c0 unfolding p_def by simp
    have pl: "p < length (items pq)" using cl pc by simp
    have "prio_at h (swap i j pq) p \<le> prio_at h (swap i j pq) c"
    proof (cases "c = j")
      case True
      then have "p = i" by (simp add: p_def i_def)
      then show ?thesis using lt' ij True by (simp add: sw il j)
    next
      case False
      have old: "prio_at h pq p \<le> prio_at h pq c"
        using inv1 [OF c0 cl False] by (simp add: p_def)
      show ?thesis
      proof (cases "p = j")
        case True
        have "prio_at h pq i \<le> prio_at h pq c"
          using inv2 [OF c0 cl] True by (simp add: p_def)
        then show ?thesis using True False ci by (simp add: sw cl j)
      next
        case nj: False
        show ?thesis
        proof (cases "p = i")
          case True
          then show ?thesis using old lt' False ci nj by (simp add: sw il cl)
        next
          case False
          then show ?thesis using old nj \<open>c \<noteq> j\<close> ci by (simp add: sw cl pl)
        qed
      qed
    qed
    then show "prio_at h (swap i j pq) ((c - 1) div 2) \<le> prio_at h (swap i j pq) c"
      by (simp add: p_def)
  next
    fix c assume c: "0 < c \<and> c < length (items (swap i j pq)) \<and> (c - 1) div 2 = i \<and> 0 < i"
    then have cl: "c < length (items pq)" and c0: "0 < c" and cp: "(c - 1) div 2 = i" and i0: "0 < i"
      by simp_all
    have ci: "c \<noteq> i" using cp parent_lt [OF c0] by simp
    define g where "g = (i - 1) div 2"
    have gi: "g < i" using i0 unfolding g_def by simp
    have gl: "g < length (items pq)" using gi il by simp
    have gp: "prio_at h pq g \<le> prio_at h pq i"
      using inv1 [OF i0 il] ij by (simp add: g_def)
    have "prio_at h (swap i j pq) g \<le> prio_at h (swap i j pq) c"
    proof (cases "c = j")
      case True
      then show ?thesis using gp gi ij by (simp add: sw gl j)
    next
      case False
      have "prio_at h pq i \<le> prio_at h pq c"
        using inv1 [OF c0 cl False] cp by simp
      then show ?thesis using gp False ci gi ij by (simp add: sw gl cl)
    qed
    then show "prio_at h (swap i j pq) ((i - 1) div 2) \<le> prio_at h (swap i j pq) c"
      by (simp add: g_def)
  qed
  then show ?thesis by (simp add: i_def)
qed

lemma up_heap:
  fixes h :: "('v, 'p::linorder) item_store"
  shows "comparator pq = Min_cmp \<Longrightarrow> j < length (items pq) \<Longrightarrow> up_inv h pq j \<Longrightarrow>
    \<exists>pq'. up h j pq = Some pq' \<and> heap_upto h pq' (length (items pq')) \<and>
       mset (items pq') = mset (items pq) \<and> comparator pq' = comparator pq \<and>
       length (items pq') = length (items pq)"
proof (induction h j pq rule: up.induct)
  case (1 h j pq)
  define i where "i = (j - 1) div 2"
  show ?case
  proof (cases "i = j")
    case True
    then have j0: "j = 0" unfolding i_def by (cases j) auto
    have "heap_upto h pq (length (items pq))"
      using "1.prems"(3) j0 unfolding up_inv_def heap_upto_def by simp
    moreover have "up h j pq = Some pq" unfolding j0 by (simp add: up.simps [of h 0 pq])
    ultimately show ?thesis by simp
  next
    case False
    show ?thesis
    proof (cases "less_pq h pq j i")
      case nl: False
      then have le: "prio_at h pq i \<le> prio_at h pq j"
        using "1.prems"(1) by (simp add: less_pq_Min)
      have "heap_upto h pq (length (items pq))"
        unfolding heap_upto_def
      proof (intro allI impI)
        fix c assume c: "0 < c \<and> c < length (items pq)"
        show "prio_at h pq ((c - 1) div 2) \<le> prio_at h pq c"
        proof (cases "c = j")
          case True then show ?thesis using le by (simp add: i_def)
        next
          case False then show ?thesis using "1.prems"(3) c unfolding up_inv_def by blast
        qed
      qed
      moreover have "up h j pq = Some pq"
        using False nl "1.prems"(2) by (simp add: up.simps [of h j pq] i_def)
      ultimately show ?thesis by simp
    next
      case True
      have ij: "i < j" using False unfolding i_def by (cases j) auto
      have lt: "prio_at h pq j < prio_at h pq ((j - 1) div 2)"
        using True "1.prems"(1) by (simp add: less_pq_Min i_def)
      have inv': "up_inv h (swap i j pq) i"
        using up_inv_swap [OF "1.prems"(3) "1.prems"(2) _ lt] False by (simp add: i_def)
      have il: "i < length (items pq)" using ij "1.prems"(2) by simp
      have "\<exists>pq'. up h i (swap i j pq) = Some pq' \<and> heap_upto h pq' (length (items pq')) \<and>
         mset (items pq') = mset (items (swap i j pq)) \<and> comparator pq' = comparator (swap i j pq) \<and>
         length (items pq') = length (items (swap i j pq))"
      proof (rule "1.IH" [of i])
        show "i = (j - 1) div 2" by (simp add: i_def)
        show "i \<noteq> j" by fact
        show "\<not> \<not> j < length (items pq)" using "1.prems"(2) by simp
        show "\<not> \<not> less_pq h pq j i" using True by simp
        show "comparator (swap i j pq) = Min_cmp" using "1.prems"(1) by simp
        show "i < length (items (swap i j pq))" using il by simp
        show "up_inv h (swap i j pq) i" by fact
      qed
      moreover have "up h j pq = up h i (swap i j pq)"
        using False True "1.prems"(2) by (simp add: up.simps [of h j pq] i_def Let_def)
      ultimately show ?thesis using il "1.prems"(2) by simp
    qed
  qed
qed

lemma down_inv_swap:
  fixes h :: "('v, 'p::linorder) item_store"
  assumes inv: "down_inv h pq n i" and n: "n \<le> length (items pq)" and jn: "j < n"
    and pj: "(j - 1) div 2 = i" and j0: "0 < j"
    and least: "\<And>c. 0 < c \<Longrightarrow> c < n \<Longrightarrow> (c - 1) div 2 = i \<Longrightarrow> prio_at h pq j \<le> prio_at h pq c"
    and lt: "prio_at h pq j < prio_at h pq i"
  shows "down_inv h (swap i j pq) n j"
proof -
  have ij: "i < j" using pj parent_lt [OF j0] by simp
  have jl: "j < length (items pq)" using jn n by simp
  have il: "i < length (items pq)" using ij jl by simp
  have inv1: "\<And>c. 0 < c \<Longrightarrow> c < n \<Longrightarrow> (c - 1) div 2 \<noteq> i \<Longrightarrow>
      prio_at h pq ((c - 1) div 2) \<le> prio_at h pq c"
    using inv unfolding down_inv_def by blast
  have inv2: "\<And>c. 0 < c \<Longrightarrow> c < n \<Longrightarrow> (c - 1) div 2 = i \<Longrightarrow> 0 < i \<Longrightarrow>
      prio_at h pq ((i - 1) div 2) \<le> prio_at h pq c"
    using inv unfolding down_inv_def by blast
  have sw: "\<And>c. c < length (items pq) \<Longrightarrow> prio_at h (swap i j pq) c =
     (if c = j then prio_at h pq i else if c = i then prio_at h pq j else prio_at h pq c)"
    using prio_at_swap [OF il jl] by blast
  show ?thesis
    unfolding down_inv_def
  proof (intro conjI allI impI)
    fix c assume c: "0 < c \<and> c < n \<and> (c - 1) div 2 \<noteq> j"
    then have c0: "0 < c" and cn: "c < n" and cpj: "(c - 1) div 2 \<noteq> j" by simp_all
    define p where "p = (c - 1) div 2"
    have pc: "p < c" using c0 unfolding p_def by simp
    have cl: "c < length (items pq)" using cn n by simp
    have pl: "p < length (items pq)" using cl pc by simp
    have pnj: "p \<noteq> j" using cpj by (simp add: p_def)
    have "prio_at h (swap i j pq) p \<le> prio_at h (swap i j pq) c"
    proof (cases "c = i")
      case True
      have i0: "0 < i" using True c0 by simp
      have pi: "p = (i - 1) div 2" using True by (simp add: p_def)
      have "prio_at h pq p \<le> prio_at h pq j"
        using inv2 [OF j0 jn pj i0] by (simp add: pi)
      then show ?thesis using True pc ij pnj by (simp add: sw pl il)
    next
      case ci: False
      show ?thesis
      proof (cases "c = j")
        case True
        then have "p = i" using pj by (simp add: p_def)
        then show ?thesis using True lt ij by (simp add: sw il jl)
      next
        case cj: False
        show ?thesis
        proof (cases "p = i")
          case True
          have "prio_at h pq j \<le> prio_at h pq c"
            using least [OF c0 cn] True by (simp add: p_def)
          then show ?thesis using True ci cj ij by (simp add: sw cl il)
        next
          case False
          have "prio_at h pq p \<le> prio_at h pq c"
            using inv1 [OF c0 cn] False by (simp add: p_def)
          then show ?thesis using False pnj ci cj by (simp add: sw cl pl)
        qed
      qed
    qed
    then show "prio_at h (swap i j pq) ((c - 1) div 2) \<le> prio_at h (swap i j pq) c"
      by (simp add: p_def)
  next
    fix c assume c: "0 < c \<and> c < n \<and> (c - 1) div 2 = j \<and> 0 < j"
    then have c0: "0 < c" and cn: "c < n" and cp: "(c - 1) div 2 = j" by simp_all
    have jc: "j < c" using cp parent_lt [OF c0] by simp
    have cl: "c < length (items pq)" using cn n by simp
    have "prio_at h pq j \<le> prio_at h pq c"
      using inv1 [OF c0 cn] cp ij by simp
    then have "prio_at h (swap i j pq) i \<le> prio_at h (swap i j pq) c"
      using jc ij by (simp add: sw cl il)
    then show "prio_at h (swap i j pq) ((j - 1) div 2) \<le> prio_at h (swap i j pq) c"
      unfolding pj .
  qed
qed

lemma swap_nth_other:
  "c \<noteq> i \<Longrightarrow> c \<noteq> j \<Longrightarrow> items (swap i j pq) ! c = items pq ! c"
  by (simp add: swap_def)

lemma child_cases: "0 < c \<Longrightarrow> (c - 1) div 2 = i \<Longrightarrow> c = 2 * i + 1 \<or> c = 2 * i + (2::nat)"
  by (cases c) auto

lemma down_loop_heap:
  fixes h :: "('v, 'p::linorder) item_store"
  shows "comparator pq = Min_cmp \<Longrightarrow> n \<le> length (items pq) \<Longrightarrow> down_inv h pq n i \<Longrightarrow>
    heap_upto h (snd (down_loop h n i pq)) n \<and>
    mset (items (snd (down_loop h n i pq))) = mset (items pq) \<and>
    comparator (snd (down_loop h n i pq)) = comparator pq \<and>
    length (items (snd (down_loop h n i pq))) = length (items pq) \<and>
    (\<forall>c\<ge>n. items (snd (down_loop h n i pq)) ! c = items pq ! c)"
proof (induction h n i pq rule: down_loop.induct)
  case (1 h n i pq)
  define j1 where "j1 = 2 * i + 1"
  define j where "j = (if j1 + 1 < n \<and> less_pq h pq (j1 + 1) j1 then j1 + 1 else j1)"
  have unf: "down_loop h n i pq =
      (if j1 \<ge> n then (i, pq) else if \<not> less_pq h pq j i then (i, pq)
       else down_loop h n j (swap i j pq))"
    unfolding j_def j1_def by (subst down_loop.simps) (simp add: Let_def)
  show ?case
  proof (cases "j1 \<ge> n")
    case True
    have "heap_upto h pq n"
      unfolding heap_upto_def
    proof (intro allI impI)
      fix c assume c: "0 < c \<and> c < n"
      have "(c - 1) div 2 \<noteq> i"
      proof
        assume "(c - 1) div 2 = i"
        then have "c = 2 * i + 1 \<or> c = 2 * i + 2" using c child_cases by blast
        then show False using True c by (auto simp: j1_def)
      qed
      then show "prio_at h pq ((c - 1) div 2) \<le> prio_at h pq c"
        using "1.prems"(3) c unfolding down_inv_def by blast
    qed
    moreover have "down_loop h n i pq = (i, pq)"
      using True by (simp add: unf)
    ultimately show ?thesis by simp
  next
    case False
    then have j1n: "j1 < n" by simp
    have jn: "j < n" using j1n by (simp add: j_def)
    have j0: "0 < j" by (simp add: j_def j1_def)
    have pj: "(j - 1) div 2 = i" by (simp add: j_def j1_def)
    have least: "prio_at h pq j \<le> prio_at h pq c" if "0 < c" "c < n" "(c - 1) div 2 = i" for c
    proof -
      have "c = j1 \<or> c = j1 + 1" using child_cases [OF that(1) that(3)] by (auto simp: j1_def)
      then show ?thesis using that(2) "1.prems"(1)
        by (auto simp: j_def less_pq_Min)
    qed
    show ?thesis
    proof (cases "less_pq h pq j i")
      case nl: False
      then have le: "prio_at h pq i \<le> prio_at h pq j"
        using "1.prems"(1) by (simp add: less_pq_Min)
      have "heap_upto h pq n"
        unfolding heap_upto_def
      proof (intro allI impI)
        fix c assume c: "0 < c \<and> c < n"
        show "prio_at h pq ((c - 1) div 2) \<le> prio_at h pq c"
        proof (cases "(c - 1) div 2 = i")
          case True
          then show ?thesis using le least [of c] c by auto
        next
          case False
          then show ?thesis using "1.prems"(3) c unfolding down_inv_def by blast
        qed
      qed
      moreover have "down_loop h n i pq = (i, pq)"
        using j1n nl by (simp add: unf)
      ultimately show ?thesis by simp
    next
      case True
      have lt: "prio_at h pq j < prio_at h pq i"
        using True "1.prems"(1) by (simp add: less_pq_Min)
      have inv': "down_inv h (swap i j pq) n j"
        using down_inv_swap [OF "1.prems"(3) "1.prems"(2) jn pj j0 least lt] by blast
      have ij: "i < j" using pj parent_lt [OF j0] by simp
      have jl: "j < length (items pq)" using jn "1.prems"(2) by simp
      have il: "i < length (items pq)" using ij jl by simp
      have eq: "down_loop h n i pq = down_loop h n j (swap i j pq)"
        using j1n True by (simp add: unf)
      have IH: "heap_upto h (snd (down_loop h n j (swap i j pq))) n \<and>
        mset (items (snd (down_loop h n j (swap i j pq)))) = mset (items (swap i j pq)) \<and>
        comparator (snd (down_loop h n j (swap i j pq))) = comparator (swap i j pq) \<and>
        length (items (snd (down_loop h n j (swap i j pq)))) = length (items (swap i j pq)) \<and>
        (\<forall>c\<ge>n. items (snd (down_loop h n j (swap i j pq))) ! c = items (swap i j pq) ! c)"
      proof (rule "1.IH" [of j1 j])
        show "j1 = 2 * i + 1" by (simp add: j1_def)
        show "\<not> n \<le> j1" using j1n by simp
        show "j = (if j1 + 1 < n \<and> less_pq h pq (j1 + 1) j1 then j1 + 1 else j1)" by (simp add: j_def)
        show "\<not> \<not> less_pq h pq j i" using True by simp
        show "comparator (swap i j pq) = Min_cmp" using "1.prems"(1) by simp
        show "n \<le> length (items (swap i j pq))" using "1.prems"(2) by simp
        show "down_inv h (swap i j pq) n j" by fact
      qed
      have "\<forall>c\<ge>n. items (swap i j pq) ! c = items pq ! c"
        using jn ij by (auto simp: swap_nth_other)
      then show ?thesis using IH il jl unfolding eq by simp
    qed
  qed
qed

lemma heap_upto_cong:
  "(\<And>p. Priority (h' p) = Priority (h p)) \<Longrightarrow> items pq' = items pq \<Longrightarrow>
   heap_upto h' pq' n = heap_upto h pq n"
  by (simp add: heap_upto_def prio_at_def)

lemma heap_root_least:
  fixes h :: "('v, 'p::linorder) item_store"
  assumes hp: "heap_upto h pq n"
  shows "c < n \<Longrightarrow> prio_at h pq 0 \<le> prio_at h pq c"
proof (induction c rule: less_induct)
  case (less c)
  show ?case
  proof (cases "c = 0")
    case True then show ?thesis by simp
  next
    case False
    then have c0: "0 < c" by simp
    have pc: "(c - 1) div 2 < c" using parent_lt [OF c0] .
    have "prio_at h pq 0 \<le> prio_at h pq ((c - 1) div 2)"
      using less.IH [OF pc] pc less.prems by simp
    moreover have "prio_at h pq ((c - 1) div 2) \<le> prio_at h pq c"
      using hp c0 less.prems unfolding heap_upto_def by blast
    ultimately show ?thesis by (rule order_trans)
  qed
qed

lemma pop_last:
  "items pq \<noteq> [] \<Longrightarrow>
   pop h pq = Some (last (items pq), h(last (items pq) := (h (last (items pq)))\<lparr>Index := - 1\<rparr>),
                    pq\<lparr>items := butlast (items pq)\<rparr>)"
  by (simp add: pop_def Let_def last_conv_nth butlast_conv_take)

lemma Push_heap:
  fixes h :: "('v, 'p::linorder) item_store"
  assumes cmp: "comparator pq = Min_cmp" and hp: "heap_upto h pq (length (items pq))"
  shows "\<exists>h' pq'. Push x h pq = Some (h', pq') \<and> (\<forall>p. Priority (h' p) = Priority (h p)) \<and>
      heap_upto h' pq' (length (items pq')) \<and> mset (items pq') = mset (items pq) + {#x#} \<and>
      comparator pq' = Min_cmp"
proof -
  define n where "n = length (items pq)"
  define h' where "h' = h(x := (h x)\<lparr>Index := int n\<rparr>)"
  define pq0 where "pq0 = pq\<lparr>items := items pq @ [x]\<rparr>"
  have pr: "\<And>p. Priority (h' p) = Priority (h p)" by (simp add: h'_def)
  have hp': "heap_upto h' pq n"
    using hp heap_upto_cong [of h' h pq pq n] pr by (simp add: n_def)
  have inv: "up_inv h' pq0 n"
    unfolding up_inv_def
  proof (intro conjI allI impI)
    fix c assume "0 < c \<and> c < length (items pq0) \<and> c \<noteq> n"
    then have c0: "0 < c" and cn: "c < n" by (simp_all add: pq0_def n_def)
    have pc: "(c - 1) div 2 < n" using parent_lt [OF c0] cn by simp
    have "prio_at h' pq ((c - 1) div 2) \<le> prio_at h' pq c"
      using hp' c0 cn unfolding heap_upto_def by blast
    then show "prio_at h' pq0 ((c - 1) div 2) \<le> prio_at h' pq0 c"
      using cn pc by (simp add: prio_at_def pq0_def nth_append n_def)
  next
    fix c assume c: "0 < c \<and> c < length (items pq0) \<and> (c - 1) div 2 = n \<and> 0 < n"
    then have "c \<le> n" by (simp add: pq0_def n_def)
    moreover have "(c - 1) div 2 < c" using c parent_lt by blast
    ultimately have False using c by simp
    then show "prio_at h' pq0 ((n - 1) div 2) \<le> prio_at h' pq0 c" ..
  qed
  have "comparator pq0 = Min_cmp" using cmp by (simp add: pq0_def)
  moreover have "n < length (items pq0)" by (simp add: pq0_def n_def)
  ultimately obtain pq' where up: "up h' n pq0 = Some pq'"
      and r: "heap_upto h' pq' (length (items pq'))" "mset (items pq') = mset (items pq0)"
             "comparator pq' = comparator pq0"
    using up_heap [OF _ _ inv] by blast
  have "Push x h pq = Some (h', pq')"
    using up by (simp add: Push_def Let_def h'_def pq0_def n_def)
  then show ?thesis using pr r cmp by (simp add: pq0_def)
qed

lemma Pop_heap:
  fixes h :: "('v, 'p::linorder) item_store"
  assumes cmp: "comparator pq = Min_cmp" and hp: "heap_upto h pq (length (items pq))"
    and ne: "items pq \<noteq> []"
  shows "\<exists>h' pq'. Pop h pq = Some (items pq ! 0, h', pq') \<and> (\<forall>p. Priority (h' p) = Priority (h p)) \<and>
      heap_upto h' pq' (length (items pq')) \<and> mset (items pq') + {#items pq ! 0#} = mset (items pq) \<and>
      comparator pq' = Min_cmp \<and>
      (\<forall>y \<in> set (items pq). Priority (h (items pq ! 0)) \<le> Priority (h y))"
proof -
  define n where "n = length (items pq)"
  have n0: "0 < n" using ne by (simp add: n_def)
  define pq1 where "pq1 = swap 0 (n - 1) pq"
  define pq2 where "pq2 = snd (down_loop h (n - 1) 0 pq1)"
  have l1: "length (items pq1) = n" by (simp add: pq1_def n_def)
  have inv: "down_inv h pq1 (n - 1) 0"
    unfolding down_inv_def
  proof (intro conjI allI impI)
    fix c assume c: "0 < c \<and> c < n - 1 \<and> (c - 1) div 2 \<noteq> 0"
    then have c0: "0 < c" and cn: "c < n - 1" and p0: "(c - 1) div 2 \<noteq> 0" by simp_all
    have pc: "(c - 1) div 2 < c" using parent_lt [OF c0] .
    have "prio_at h pq ((c - 1) div 2) \<le> prio_at h pq c"
      using hp c0 cn unfolding heap_upto_def n_def by simp
    moreover have "items pq1 ! c = items pq ! c"
      unfolding pq1_def using c0 cn by (intro swap_nth_other) simp_all
    moreover have "items pq1 ! ((c - 1) div 2) = items pq ! ((c - 1) div 2)"
      unfolding pq1_def using p0 pc cn by (intro swap_nth_other) simp_all
    ultimately show "prio_at h pq1 ((c - 1) div 2) \<le> prio_at h pq1 c"
      by (simp add: prio_at_def)
  qed simp
  have "comparator pq1 = Min_cmp" using cmp by (simp add: pq1_def)
  moreover have "n - 1 \<le> length (items pq1)" using l1 by simp
  ultimately have d: "heap_upto h pq2 (n - 1)" "mset (items pq2) = mset (items pq1)"
      "comparator pq2 = comparator pq1" "length (items pq2) = length (items pq1)"
      "\<forall>c\<ge>n - 1. items pq2 ! c = items pq1 ! c"
    using down_loop_heap [OF _ _ inv] unfolding pq2_def by blast+
  have m1: "mset (items pq1) = mset (items pq)"
    unfolding pq1_def using n0 by (intro swap_mset) (simp_all add: n_def)
  have "items pq1 ! (n - 1) = items pq ! 0"
    using n0 by (simp add: pq1_def swap_def n_def nth_list_update)
  then have lastx: "items pq2 ! (n - 1) = items pq ! 0" using d(5) by simp
  have l2: "length (items pq2) = n" using d(4) l1 by simp
  have ne2: "items pq2 \<noteq> []" using l2 n0 by auto
  have last2: "last (items pq2) = items pq ! 0"
    using lastx ne2 l2 by (simp add: last_conv_nth)
  define h' where "h' = h(items pq ! 0 := (h (items pq ! 0))\<lparr>Index := - 1\<rparr>)"
  define pq' where "pq' = pq2\<lparr>items := butlast (items pq2)\<rparr>"
  have "Pop h pq = pop h pq2"
    using n0 by (simp add: Pop_def Let_def down_def pq2_def pq1_def n_def split: prod.splits)
  then have P: "Pop h pq = Some (items pq ! 0, h', pq')"
    using pop_last [OF ne2, of h] by (simp add: last2 h'_def pq'_def)
  have pr: "\<And>p. Priority (h' p) = Priority (h p)" by (simp add: h'_def)
  have "heap_upto h pq' (n - 1)"
    using d(1) l2 unfolding heap_upto_def prio_at_def pq'_def
    by (auto simp: nth_butlast)
  then have hp': "heap_upto h' pq' (length (items pq'))"
    using heap_upto_cong [of h' h pq' pq' "n - 1"] pr l2 by (simp add: pq'_def)
  have "items pq2 = butlast (items pq2) @ [last (items pq2)]" using ne2 by simp
  then have "mset (items pq2) = mset (butlast (items pq2)) + {#last (items pq2)#}"
    by (metis mset.simps(1) mset.simps(2) mset_append)
  then have ms: "mset (items pq') + {#items pq ! 0#} = mset (items pq)"
    using d(2) m1 last2 by (simp add: pq'_def)
  have least: "\<forall>y \<in> set (items pq). Priority (h (items pq ! 0)) \<le> Priority (h y)"
  proof
    fix y assume "y \<in> set (items pq)"
    then obtain c where "c < length (items pq)" "y = items pq ! c" by (auto simp: in_set_conv_nth)
    then show "Priority (h (items pq ! 0)) \<le> Priority (h y)"
      using heap_root_least [OF hp, of c] by (simp add: prio_at_def)
  qed
  show ?thesis using P pr hp' ms least cmp d(3) by (simp add: pq'_def pq1_def)
qed

lemma push_all_heap:
  fixes h :: "('v, 'p::linorder) item_store"
  shows "comparator pq = Min_cmp \<Longrightarrow> heap_upto h pq (length (items pq)) \<Longrightarrow>
    \<exists>h' pq'. push_all xs h pq = Some (h', pq') \<and> (\<forall>p. Priority (h' p) = Priority (h p)) \<and>
      heap_upto h' pq' (length (items pq')) \<and> mset (items pq') = mset (items pq) + mset xs \<and>
      comparator pq' = Min_cmp"
proof (induction xs arbitrary: h pq)
  case Nil
  then show ?case by simp
next
  case (Cons x xs)
  obtain h1 pq1 where P: "Push x h pq = Some (h1, pq1)"
      and pr1: "\<forall>p. Priority (h1 p) = Priority (h p)"
      and hp1: "heap_upto h1 pq1 (length (items pq1))"
      and ms1: "mset (items pq1) = mset (items pq) + {#x#}"
      and c1: "comparator pq1 = Min_cmp"
    using Push_heap [OF Cons.prems] by blast
  obtain h' pq' where Q: "push_all xs h1 pq1 = Some (h', pq')"
      and pr2: "\<forall>p. Priority (h' p) = Priority (h1 p)"
      and r: "heap_upto h' pq' (length (items pq'))" "mset (items pq') = mset (items pq1) + mset xs"
             "comparator pq' = Min_cmp"
    using Cons.IH [OF c1 hp1] by blast
  show ?case using P Q pr1 pr2 r ms1 by simp
qed

lemma pop_n_sorted:
  fixes h :: "('v, 'p::linorder) item_store"
  shows "comparator pq = Min_cmp \<Longrightarrow> heap_upto h pq (length (items pq)) \<Longrightarrow>
    k \<le> length (items pq) \<Longrightarrow>
    \<exists>out h' pq'. pop_n k h pq = Some (out, h', pq') \<and> length out = k \<and>
      sorted (map (\<lambda>p. Priority (h p)) out) \<and>
      mset out + mset (items pq') = mset (items pq) \<and>
      (\<forall>p. Priority (h' p) = Priority (h p))"
proof (induction k arbitrary: h pq)
  case 0
  then show ?case by simp
next
  case (Suc k)
  have ne: "items pq \<noteq> []" using Suc.prems(3) by auto
  obtain h1 pq1 where P: "Pop h pq = Some (items pq ! 0, h1, pq1)"
      and pr1: "\<forall>p. Priority (h1 p) = Priority (h p)"
      and hp1: "heap_upto h1 pq1 (length (items pq1))"
      and ms1: "mset (items pq1) + {#items pq ! 0#} = mset (items pq)"
      and c1: "comparator pq1 = Min_cmp"
      and least: "\<forall>y \<in> set (items pq). Priority (h (items pq ! 0)) \<le> Priority (h y)"
    using Pop_heap [OF Suc.prems(1,2) ne] by blast
  have "size (mset (items pq1) + {#items pq ! 0#}) = size (mset (items pq))"
    using ms1 by simp
  then have k1: "k \<le> length (items pq1)" using Suc.prems(3) by simp
  obtain out h' pq' where Q: "pop_n k h1 pq1 = Some (out, h', pq')"
      and len: "length out = k"
      and so: "sorted (map (\<lambda>p. Priority (h1 p)) out)"
      and ms2: "mset out + mset (items pq') = mset (items pq1)"
      and pr2: "\<forall>p. Priority (h' p) = Priority (h1 p)"
    using Suc.IH [OF c1 hp1 k1] by blast
  have so': "sorted (map (\<lambda>p. Priority (h p)) out)" using so pr1 by simp
  have "set out \<subseteq> set (items pq)"
  proof
    fix y assume "y \<in> set out"
    then have "y \<in># mset out + mset (items pq')" by simp
    then have "y \<in># mset (items pq1) + {#items pq ! 0#}" using ms2 by simp
    then show "y \<in> set (items pq)" using ms1 by (metis set_mset_mset)
  qed
  then have "\<forall>y \<in> set out. Priority (h (items pq ! 0)) \<le> Priority (h y)"
    using least by blast
  then have "sorted (map (\<lambda>p. Priority (h p)) (items pq ! 0 # out))" using so' by simp
  moreover have "mset (items pq ! 0 # out) + mset (items pq') = mset (items pq)"
    using ms1 ms2 by (simp add: add.commute add.left_commute)
  ultimately show ?case using P Q len pr1 pr2 by simp
qed

lemma heap_upto_New: "heap_upto h (New c cmp) (length (items (New c cmp)))"
  by (simp add: heap_upto_def New_def)

lemmas pq_eval = Push_def Pop_def pop_def Remove_def Update_def PeekAndShift_def down_def
  swap_def less_pq_def Min_cmp_def New_def Let_def up.simps down_loop.simps

text \<open>
  Claim C8. Pushing any finite sequence of items into an empty min-heap queue and then
  popping as many times as items were pushed never panics, empties the queue, returns
  exactly the pushed items, and returns them with priorities in non-decreasing order.
\<close>

theorem push_then_pop_sorted:
  fixes h :: "('v, 'p::linorder) item_store"
  shows "\<exists>h1 pq1 out h2 pq2.
     push_all xs h (New c Min_cmp) = Some (h1, pq1) \<and>
     pop_n (length xs) h1 pq1 = Some (out, h2, pq2) \<and>
     sorted (map (\<lambda>p. Priority (h p)) out) \<and>
     mset out = mset xs \<and> items pq2 = []"
proof -
  have c0: "comparator (New c (Min_cmp :: 'p \<Rightarrow> 'p \<Rightarrow> bool)) = Min_cmp" by (simp add: New_def)
  obtain h1 pq1 where P: "push_all xs h (New c Min_cmp) = Some (h1, pq1)"
      and pr1: "\<forall>p. Priority (h1 p) = Priority (h p)"
      and hp1: "heap_upto h1 pq1 (length (items pq1))"
      and ms1: "mset (items pq1) = mset (items (New c (Min_cmp :: 'p \<Rightarrow> 'p \<Rightarrow> bool))) + mset xs"
      and c1: "comparator pq1 = Min_cmp"
    using push_all_heap [OF c0 heap_upto_New] by blast
  have ms1': "mset (items pq1) = mset xs" using ms1 by (simp add: New_def)
  then have "size (mset (items pq1)) = size (mset xs)" by simp
  then have l1: "length xs \<le> length (items pq1)" by simp
  obtain out h2 pq2 where Q: "pop_n (length xs) h1 pq1 = Some (out, h2, pq2)"
      and len: "length out = length xs"
      and so: "sorted (map (\<lambda>p. Priority (h1 p)) out)"
      and ms2: "mset out + mset (items pq2) = mset (items pq1)"
    using pop_n_sorted [OF c1 hp1 l1] by blast
  have "size (mset out + mset (items pq2)) = size (mset xs)" using ms2 ms1' by simp
  then have e: "items pq2 = []" using len by simp
  then have "mset out = mset xs" using ms2 ms1' by simp
  then show ?thesis using P Q so pr1 e by simp
qed

theorem push_then_pop_sorted_witness:
  "\<exists>h1 pq1 out h2 pq2.
     push_all [0, 1, 2] store3 (New 4 Min_cmp) = Some (h1, pq1) \<and>
     pop_n (length [0, 1, 2 :: nat]) h1 pq1 = Some (out, h2, pq2) \<and>
     sorted (map (\<lambda>p. Priority (store3 p)) out) \<and>
     mset out = mset [0, 1, 2] \<and> items pq2 = []"
  by (rule push_then_pop_sorted)

text \<open>
  Claim C1, evaluated on the code. Item 0 (priority 5) and then item 1 (priority 3) are
  pushed into an empty queue. \<open>up\<close> swaps them, so item 1 is at position 0 and item 0 at
  position 1, but \<open>swap\<close> wrote no \<open>Index\<close>: item 0 still carries \<open>Index = 0\<close> and
  item 1 still carries \<open>Index = 1\<close>, each the position of the other.
\<close>

theorem Index_stale_after_swap:
  "\<exists>h1 pq1. push_all [0, 1] store3 (New 4 Min_cmp) = Some (h1, pq1) \<and>
     items pq1 = [1, 0] \<and> Index (h1 0) = 0 \<and> Index (h1 1) = 1"
  by (simp add: pq_eval store3_def)

lemma down_loop_frame:
  "n \<le> length (items pq) \<Longrightarrow>
    mset (items (snd (down_loop h n i pq))) = mset (items pq) \<and>
    comparator (snd (down_loop h n i pq)) = comparator pq \<and>
    length (items (snd (down_loop h n i pq))) = length (items pq) \<and>
    (\<forall>c\<ge>n. items (snd (down_loop h n i pq)) ! c = items pq ! c)"
proof (induction h n i pq rule: down_loop.induct)
  case (1 h n i pq)
  define j1 where "j1 = 2 * i + 1"
  define j where "j = (if j1 + 1 < n \<and> less_pq h pq (j1 + 1) j1 then j1 + 1 else j1)"
  have unf: "down_loop h n i pq =
      (if j1 \<ge> n then (i, pq) else if \<not> less_pq h pq j i then (i, pq)
       else down_loop h n j (swap i j pq))"
    unfolding j_def j1_def by (subst down_loop.simps) (simp add: Let_def)
  show ?case
  proof (cases "j1 < n \<and> less_pq h pq j i")
    case False
    then show ?thesis by (auto simp: unf)
  next
    case True
    have jn: "j < n" using True by (simp add: j_def)
    have ij: "i < j" by (simp add: j_def j1_def)
    have jl: "j < length (items pq)" using jn "1.prems" by simp
    have il: "i < length (items pq)" using ij jl by simp
    have eq: "down_loop h n i pq = down_loop h n j (swap i j pq)"
      using True by (simp add: unf)
    have IH: "mset (items (snd (down_loop h n j (swap i j pq)))) = mset (items (swap i j pq)) \<and>
        comparator (snd (down_loop h n j (swap i j pq))) = comparator (swap i j pq) \<and>
        length (items (snd (down_loop h n j (swap i j pq)))) = length (items (swap i j pq)) \<and>
        (\<forall>c\<ge>n. items (snd (down_loop h n j (swap i j pq))) ! c = items (swap i j pq) ! c)"
    proof (rule "1.IH" [of j1 j])
      show "j1 = 2 * i + 1" by (simp add: j1_def)
      show "\<not> n \<le> j1" using True by simp
      show "j = (if j1 + 1 < n \<and> less_pq h pq (j1 + 1) j1 then j1 + 1 else j1)" by (simp add: j_def)
      show "\<not> \<not> less_pq h pq j i" using True by simp
      show "n \<le> length (items (swap i j pq))" using "1.prems" by simp
    qed
    have "\<forall>c\<ge>n. items (swap i j pq) ! c = items pq ! c"
      using jn ij by (auto simp: swap_nth_other)
    then show ?thesis using IH il jl unfolding eq by simp
  qed
qed

lemma up_zero: "up h 0 pq = Some pq"
  by (simp add: up.simps [of h 0 pq])

lemma Pop_frame:
  assumes ne: "items pq \<noteq> []"
  shows "\<exists>pq'. Pop h pq =
        Some (items pq ! 0, h(items pq ! 0 := (h (items pq ! 0))\<lparr>Index := - 1\<rparr>), pq') \<and>
      mset (items pq') + {#items pq ! 0#} = mset (items pq) \<and>
      comparator pq' = comparator pq"
proof -
  define n where "n = length (items pq)"
  have n0: "0 < n" using ne by (simp add: n_def)
  define pq1 where "pq1 = swap 0 (n - 1) pq"
  define pq2 where "pq2 = snd (down_loop h (n - 1) 0 pq1)"
  have l1: "length (items pq1) = n" by (simp add: pq1_def n_def)
  then have "n - 1 \<le> length (items pq1)" by simp
  then have d: "mset (items pq2) = mset (items pq1)"
      "comparator pq2 = comparator pq1" "length (items pq2) = length (items pq1)"
      "\<forall>c\<ge>n - 1. items pq2 ! c = items pq1 ! c"
    using down_loop_frame [of "n - 1" pq1 h 0] unfolding pq2_def by blast+
  have m1: "mset (items pq1) = mset (items pq)"
    unfolding pq1_def using n0 by (intro swap_mset) (simp_all add: n_def)
  have "items pq1 ! (n - 1) = items pq ! 0"
    using n0 by (simp add: pq1_def swap_def n_def nth_list_update)
  then have lastx: "items pq2 ! (n - 1) = items pq ! 0" using d(4) by simp
  have l2: "length (items pq2) = n" using d(3) l1 by simp
  have ne2: "items pq2 \<noteq> []" using l2 n0 by auto
  have last2: "last (items pq2) = items pq ! 0"
    using lastx ne2 l2 by (simp add: last_conv_nth)
  define pq' where "pq' = pq2\<lparr>items := butlast (items pq2)\<rparr>"
  have "Pop h pq = pop h pq2"
    using n0 by (simp add: Pop_def Let_def down_def pq2_def pq1_def n_def split: prod.splits)
  then have P: "Pop h pq =
      Some (items pq ! 0, h(items pq ! 0 := (h (items pq ! 0))\<lparr>Index := - 1\<rparr>), pq')"
    using pop_last [OF ne2, of h] by (simp add: last2 pq'_def)
  have "items pq2 = butlast (items pq2) @ [last (items pq2)]" using ne2 by simp
  then have "mset (items pq2) = mset (butlast (items pq2)) + {#last (items pq2)#}"
    by (metis mset.simps(1) mset.simps(2) mset_append)
  then have ms: "mset (items pq') + {#items pq ! 0#} = mset (items pq)"
    using d(1) m1 last2 by (simp add: pq'_def)
  show ?thesis using P ms d(2) by (simp add: pq'_def pq1_def)
qed

lemma Remove_zero:
  assumes ne: "items pq \<noteq> []"
  shows "Remove 0 h pq = Pop h pq"
proof (cases "length (items pq) = 1")
  case True
  then obtain x where x: "items pq = [x]" by (cases "items pq") auto
  have "swap 0 0 pq = pq" by (simp add: swap_def)
  moreover have "down_loop h 0 0 pq = (0, pq)" by (simp add: down_loop.simps [of h 0 0 pq])
  ultimately show ?thesis using True by (simp add: Remove_def Pop_def down_def)
next
  case False
  moreover have "length (items pq) \<noteq> 0" using ne by simp
  ultimately have n2: "2 \<le> length (items pq)" by arith
  then have a: "int (length (items pq)) - 1 \<noteq> 0" "nat (int (length (items pq)) - 1) = length (items pq) - 1"
    by auto
  show ?thesis
    using n2 a by (simp add: Remove_def Pop_def down_def Let_def up_zero split: prod.splits)
qed

text \<open>
  Claim C7. For every store, queue and predicate: \<open>PeekAndShift\<close> returns no item and
  leaves store and queue as they are when the queue is empty or the predicate holds of the
  head's priority; otherwise it returns the head, takes one occurrence of it out of the
  array and sets its \<open>Index\<close> to \<open>-1\<close>. With the predicate \<open>p > t\<close> an item is
  returned exactly when the queue is non-empty and the head's priority is at most \<open>t\<close>.
\<close>

theorem PeekAndShift_spec:
  fixes h :: "('v, 'p::linorder) item_store"
  shows "(items pq = [] \<or> keep (Priority (h (items pq ! 0))) \<longrightarrow>
            PeekAndShift keep h pq = Some (None, h, pq)) \<and>
         (items pq \<noteq> [] \<and> \<not> keep (Priority (h (items pq ! 0))) \<longrightarrow>
            (\<exists>h' pq'. PeekAndShift keep h pq = Some (Some (items pq ! 0), h', pq') \<and>
                mset (items pq') + {#items pq ! 0#} = mset (items pq) \<and>
                Index (h' (items pq ! 0)) = - 1)) \<and>
         ((\<exists>x h' pq'. PeekAndShift (\<lambda>p. p > t) h pq = Some (Some x, h', pq')) \<longleftrightarrow>
            items pq \<noteq> [] \<and> Priority (h (items pq ! 0)) \<le> t)"
proof (intro conjI impI)
  assume "items pq = [] \<or> keep (Priority (h (items pq ! 0)))"
  then show "PeekAndShift keep h pq = Some (None, h, pq)"
    by (auto simp: PeekAndShift_def Let_def)
next
  assume a: "items pq \<noteq> [] \<and> \<not> keep (Priority (h (items pq ! 0)))"
  then obtain pq' where P: "Remove 0 h pq =
        Some (items pq ! 0, h(items pq ! 0 := (h (items pq ! 0))\<lparr>Index := - 1\<rparr>), pq')"
      and ms: "mset (items pq') + {#items pq ! 0#} = mset (items pq)"
    using Pop_frame [of pq h] Remove_zero [of pq h] by auto
  show "\<exists>h' pq'. PeekAndShift keep h pq = Some (Some (items pq ! 0), h', pq') \<and>
      mset (items pq') + {#items pq ! 0#} = mset (items pq) \<and> Index (h' (items pq ! 0)) = - 1"
    using a P ms by (simp add: PeekAndShift_def Let_def)
next
  show "(\<exists>x h' pq'. PeekAndShift (\<lambda>p. p > t) h pq = Some (Some x, h', pq')) \<longleftrightarrow>
      items pq \<noteq> [] \<and> Priority (h (items pq ! 0)) \<le> t"
  proof (cases "items pq \<noteq> [] \<and> \<not> t < Priority (h (items pq ! 0))")
    case True
    then obtain pq' where P: "Remove 0 h pq =
        Some (items pq ! 0, h(items pq ! 0 := (h (items pq ! 0))\<lparr>Index := - 1\<rparr>), pq')"
      using Pop_frame [of pq h] Remove_zero [of pq h] by auto
    show ?thesis using True P by (simp add: PeekAndShift_def Let_def not_less)
  next
    case False
    then show ?thesis by (auto simp: PeekAndShift_def Let_def not_less)
  qed
qed

theorem PeekAndShift_spec_witness:
  "PeekAndShift (\<lambda>p. p > 2) store3 \<lparr>items = [1, 0, 2], comparator = Min_cmp\<rparr> =
      Some (None, store3, \<lparr>items = [1, 0, 2], comparator = Min_cmp\<rparr>) \<and>
   (\<exists>h' pq'. PeekAndShift (\<lambda>p. p > 3) store3 \<lparr>items = [1, 0, 2], comparator = Min_cmp\<rparr> =
        Some (Some 1, h', pq') \<and> mset (items pq') + {#1#} = mset [1, 0, 2] \<and> Index (h' 1) = - 1)"
  using PeekAndShift_spec [of "\<lparr>items = [1, 0, 2], comparator = Min_cmp\<rparr>" "\<lambda>p. p > 2" store3 0]
    PeekAndShift_spec [of "\<lparr>items = [1, 0, 2], comparator = Min_cmp\<rparr>" "\<lambda>p. p > 3" store3 0]
  by (simp add: store3_def)

section \<open>Properties of the channel\<close>

lemmas ch_eval = NewChannel_def msgs3_def Exiting_def Depth_def put_def PutMessage_def
  new_Item_def item_ID_def pushInFlightMessage_def popInFlightMessage_def addToInFlightPQ_def
  removeFromInFlightPQ_def pushDeferredMessage_def addToDeferredPQ_def StartInFlightTimeout_def
  StartDeferredTimeout_def PutMessageDeferred_def TouchMessage_def FinishMessage_def
  RequeueMessage_def processDeferredQueue_def in_stream_def has_room_def

text \<open>
  Claim C5, as amended. On an exiting channel \<open>PutMessage\<close> returns the exiting error and
  the channel is as before. When \<open>PutMessage\<close> returns no error, \<open>messageCount\<close> has
  grown by one, and \<open>Depth\<close> has grown by one unless the buffer had no room and the
  backend is the no-op backend of an ephemeral channel, where \<open>Depth\<close> is as before.
\<close>

theorem PutMessage_effect:
  "(Exiting c \<longrightarrow> PutMessage m c = (Some ErrExiting, c)) \<and>
   (PutMessage m c = (None, c') \<longrightarrow>
      messageCount c' = messageCount c + 1 \<and>
      Depth c' = (if backend c = DummyBackendQueue \<and> \<not> has_room c then Depth c else Depth c + 1))"
proof (intro conjI impI)
  assume "Exiting c"
  then show "PutMessage m c = (Some ErrExiting, c)" by (simp add: PutMessage_def)
next
  assume a: "PutMessage m c = (None, c')"
  show "messageCount c' = messageCount c + 1"
    using a
    by (cases "backend c")
       (auto simp: PutMessage_def put_def Let_def split: if_splits option.splits prod.splits)
next
  assume a: "PutMessage m c = (None, c')"
  show "Depth c' = (if backend c = DummyBackendQueue \<and> \<not> has_room c then Depth c else Depth c + 1)"
    using a
    by (cases "backend c")
       (auto simp: PutMessage_def put_def Let_def Depth_def has_room_def
             split: if_splits option.splits prod.splits)
qed

theorem PutMessage_effect_witness:
  "PutMessage 0 ((NewChannel 1 False 60 msgs3)\<lparr>exitFlag := 1\<rparr>) =
      (Some ErrExiting, (NewChannel 1 False 60 msgs3)\<lparr>exitFlag := 1\<rparr>) \<and>
   fst (PutMessage 0 (NewChannel 1 False 60 msgs3)) = None \<and>
   messageCount (snd (PutMessage 0 (NewChannel 1 False 60 msgs3))) = 1 \<and>
   Depth (snd (PutMessage 0 (NewChannel 1 False 60 msgs3))) = 1"
proof -
  let ?C = "NewChannel 1 False 60 msgs3"
  let ?E = "?C\<lparr>exitFlag := 1\<rparr>"
  have e: "Exiting ?E" by (simp add: Exiting_def)
  have f: "fst (PutMessage 0 ?C) = None" by (simp add: ch_eval)
  then have p: "PutMessage 0 ?C = (None, snd (PutMessage 0 ?C))" by (metis prod.collapse)
  have 1: "PutMessage 0 ?E = (Some ErrExiting, ?E)"
    using PutMessage_effect [of ?E 0 ?E] e by blast
  have 2: "messageCount (snd (PutMessage 0 ?C)) = messageCount ?C + 1 \<and>
      Depth (snd (PutMessage 0 ?C)) =
        (if backend ?C = DummyBackendQueue \<and> \<not> has_room ?C then Depth ?C else Depth ?C + 1)"
    using PutMessage_effect [of ?C 0 "snd (PutMessage 0 ?C)"] p by blast
  have 3: "messageCount ?C = 0" "Depth ?C = 0" "backend ?C \<noteq> DummyBackendQueue"
    by (simp_all add: NewChannel_def Depth_def)
  show ?thesis using 1 2 3 f by simp
qed

text \<open>An ephemeral channel with a buffer of one message: the first \<open>PutMessage\<close> fills
  the buffer; the second succeeds and is counted, and \<open>Depth\<close> stays at one.\<close>

theorem PutMessage_depth_counterexample:
  "fst (PutMessage 1 (snd (PutMessage 0 (NewChannel 1 True 60 msgs3)))) = None \<and>
   messageCount (snd (PutMessage 1 (snd (PutMessage 0 (NewChannel 1 True 60 msgs3))))) = 2 \<and>
   Depth (snd (PutMessage 0 (NewChannel 1 True 60 msgs3))) = 1 \<and>
   Depth (snd (PutMessage 1 (snd (PutMessage 0 (NewChannel 1 True 60 msgs3))))) = 1"
  by (simp add: ch_eval)

lemma up_total:
  "j < length (items pq) \<Longrightarrow>
    \<exists>pq'. up h j pq = Some pq' \<and> mset (items pq') = mset (items pq) \<and>
       comparator pq' = comparator pq"
proof (induction h j pq rule: up.induct)
  case (1 h j pq)
  define i where "i = (j - 1) div 2"
  have unf: "up h j pq = (if i = j then Some pq else if \<not> less_pq h pq j i then Some pq
       else up h i (swap i j pq))"
    unfolding i_def by (subst up.simps) (simp only: Let_def "1.prems" not_True_eq_False if_False)
  show ?case
  proof (cases "i \<noteq> j \<and> less_pq h pq j i")
    case False
    then show ?thesis by (auto simp: unf)
  next
    case True
    have ij: "i \<le> j" by (simp add: i_def)
    have il: "i < length (items pq)" using ij "1.prems" by simp
    have "\<exists>pq'. up h i (swap i j pq) = Some pq' \<and> mset (items pq') = mset (items (swap i j pq)) \<and>
       comparator pq' = comparator (swap i j pq)"
    proof (rule "1.IH" [of i])
      show "i = (j - 1) div 2" by (simp add: i_def)
      show "i \<noteq> j" using True by simp
      show "\<not> \<not> j < length (items pq)" using "1.prems" by simp
      show "\<not> \<not> less_pq h pq j i" using True by simp
      show "i < length (items (swap i j pq))" using il by simp
    qed
    then show ?thesis using True il "1.prems" by (simp add: unf)
  qed
qed

lemma Push_total:
  "\<exists>pq'. Push x h pq = Some (h(x := (h x)\<lparr>Index := int (length (items pq))\<rparr>), pq') \<and>
     mset (items pq') = mset (items pq) + {#x#} \<and> comparator pq' = comparator pq"
proof -
  have "length (items pq) < length (items (pq\<lparr>items := items pq @ [x]\<rparr>))" by simp
  from up_total [OF this, of "h(x := (h x)\<lparr>Index := int (length (items pq))\<rparr>)"]
  show ?thesis by (auto simp: Push_def Let_def)
qed

lemma StartDeferredTimeout_dup:
  assumes "deferredMessages c (ID (msgStore c msg)) \<noteq> None"
  shows "StartDeferredTimeout msg timeout now c =
     Some (Some ErrAlreadyDeferred, snd (new_Item msg (now + timeout) c))"
  using assms
  by (simp add: StartDeferredTimeout_def new_Item_def pushDeferredMessage_def item_ID_def Let_def)

lemma StartDeferredTimeout_total:
  "\<exists>e c'. StartDeferredTimeout msg timeout now c = Some (e, c') \<and>
      messageCount c' = messageCount c \<and> requeueCount c' = requeueCount c"
proof (cases "deferredMessages c (ID (msgStore c msg)) \<noteq> None")
  case True
  then show ?thesis by (simp add: StartDeferredTimeout_dup new_Item_def)
next
  case False
  define c2 where "c2 = snd (pushDeferredMessage (itemNext c) (snd (new_Item msg (now + timeout) c)))"
  obtain pq' where "Push (itemNext c) (itemStore c2) (deferredPQ c2) =
     Some ((itemStore c2)(itemNext c := (itemStore c2 (itemNext c))\<lparr>Index := int (length (items (deferredPQ c2)))\<rparr>), pq')"
    using Push_total by blast
  then show ?thesis using False
    by (simp add: StartDeferredTimeout_def new_Item_def pushDeferredMessage_def item_ID_def Let_def
        addToDeferredPQ_def c2_def)
qed

text \<open>
  Claim C10. \<open>PutMessageDeferred\<close> always returns (it has no result to carry an error)
  with \<open>messageCount\<close> grown by one. When the message's identifier is already in the
  deferred map, the map and the deferred queue are as before: nothing was scheduled, and
  the count has grown all the same.
\<close>

theorem PutMessageDeferred_counts:
  "(\<exists>c'. PutMessageDeferred msg timeout now c = Some c' \<and>
        messageCount c' = messageCount c + 1) \<and>
   (deferredMessages c (ID (msgStore c msg)) \<noteq> None \<longrightarrow>
      (\<exists>c'. PutMessageDeferred msg timeout now c = Some c' \<and>
         messageCount c' = messageCount c + 1 \<and>
         deferredMessages c' = deferredMessages c \<and> deferredPQ c' = deferredPQ c))"
proof (intro conjI impI)
  obtain e c' where "StartDeferredTimeout msg timeout now (c\<lparr>messageCount := messageCount c + 1\<rparr>) = Some (e, c')"
      "messageCount c' = messageCount (c\<lparr>messageCount := messageCount c + 1\<rparr>)"
    using StartDeferredTimeout_total by blast
  then show "\<exists>c'. PutMessageDeferred msg timeout now c = Some c' \<and> messageCount c' = messageCount c + 1"
    by (simp add: PutMessageDeferred_def)
next
  assume "deferredMessages c (ID (msgStore c msg)) \<noteq> None"
  then have "deferredMessages (c\<lparr>messageCount := messageCount c + 1\<rparr>)
      (ID (msgStore (c\<lparr>messageCount := messageCount c + 1\<rparr>) msg)) \<noteq> None" by simp
  from StartDeferredTimeout_dup [OF this]
  show "\<exists>c'. PutMessageDeferred msg timeout now c = Some c' \<and>
         messageCount c' = messageCount c + 1 \<and>
         deferredMessages c' = deferredMessages c \<and> deferredPQ c' = deferredPQ c"
    by (simp add: PutMessageDeferred_def new_Item_def)
qed

lemma chanD_fields:
  "deferredMessages chanD = [''m0'' \<mapsto> 0]" "items (deferredPQ chanD) = [0]"
  "messageCount chanD = 0" "msgStore chanD = msgs3"
  by (simp_all add: chanD_def ch_eval pq_eval)

theorem PutMessageDeferred_counts_witness:
  "deferredMessages chanD (ID (msgStore chanD 0)) \<noteq> None \<and>
   (\<exists>c'. PutMessageDeferred 0 100 7 chanD = Some c' \<and> messageCount c' = 1 \<and>
      deferredMessages c' = deferredMessages chanD \<and> items (deferredPQ c') = [0])"
  using PutMessageDeferred_counts [of 0 100 7 chanD]
  by (auto simp: chanD_fields msgs3_def)

end
